theory Spec2Isabelle
  imports Main "HOL-Library.Word" "HOL-Library.Multiset"
begin

section \<open>Data model of internal/runner/entry.go\<close>

text \<open>
  \<^verbatim>\<open>time.Time\<close> is an instant on a totally ordered time line; it is modelled as the number
  of seconds since the Unix epoch. A Go \<^verbatim>\<open>error\<close> is represented by its message, and the
  \<^verbatim>\<open>nil\<close> error by \<open>None\<close> of \<open>error option\<close>.
\<close>

type_synonym time = int

type_synonym error = string

text \<open>
  \<^verbatim>\<open>dag.Schedule\<close> holds the textual expression and its parsed form. The parsed form is a
  \<^verbatim>\<open>cron.Schedule\<close>, an interface whose single method is \<^verbatim>\<open>Next(time.Time) time.Time\<close>;
  the interface value is therefore modelled by that method.
\<close>

record Schedule =
  Expression :: string
  Parsed :: "time \<Rightarrow> time"

text \<open>
  The fields of \<^verbatim>\<open>dag.DAG\<close> that the entry reader consults. The registry holds DAGs, and a
  DAG holds its schedules, through pointers; the model holds the values, so it covers the
  heads in which no pointer and no parsed schedule is \<^verbatim>\<open>nil\<close>.
\<close>

record DAG =
  Name :: string
  Schedule :: "Schedule list"
  StopSchedule :: "Schedule list"
  RestartSchedule :: "Schedule list"

text \<open>The field of \<^verbatim>\<open>admin.Config\<close> that the entry reader consults.\<close>

record Config =
  DAGs :: string

text \<open>The \<^verbatim>\<open>job\<close> struct that \<^verbatim>\<open>Read\<close> builds for every entry.\<close>

record job =
  DAG :: DAG
  Config :: Config
  Next :: time

text \<open>
  \<^verbatim>\<open>type EntryType int\<close> with its three constants. The type is an \<^verbatim>\<open>int\<close>, so values other
  than the three constants exist and \<^verbatim>\<open>Invoke\<close> has a branch for them.
\<close>

type_synonym EntryType = int

definition EntryTypeStart :: EntryType where
  "EntryTypeStart = 0"

definition EntryTypeStop :: EntryType where
  "EntryTypeStop = 1"

definition EntryTypeRestart :: EntryType where
  "EntryTypeRestart = 2"

text \<open>
  \<^verbatim>\<open>Entry\<close>: the \<^verbatim>\<open>Job\<close> field is an interface value and may be \<^verbatim>\<open>nil\<close> (\<open>None\<close>). The
  type of the value behind the interface is a parameter; \<^verbatim>\<open>Read\<close> stores a \<^verbatim>\<open>*job\<close>.
\<close>

record 'j Entry =
  Next :: time
  Job :: "'j option"
  EntryType :: EntryType

text \<open>
  The method set of the \<^verbatim>\<open>Job\<close> interface. The bodies of the methods are not part of
  entry.go; \<^verbatim>\<open>Invoke\<close> is verified for every implementation.
\<close>

record 'j JobImpl =
  String :: "'j \<Rightarrow> string"
  Start :: "'j \<Rightarrow> error option"
  Stop :: "'j \<Rightarrow> error option"
  Restart :: "'j \<Rightarrow> error option"

text \<open>The lines written with \<^verbatim>\<open>log.Printf\<close>, \<^verbatim>\<open>log.Println\<close> and \<^verbatim>\<open>log.Fatal\<close>, by format.\<close>

datatype logline =
    LogInvoke string time string
  | LogFailedInitEntryDags error
  | LogInitDagsFailedRead error
  | LogInitSchedulerDags "string list"
  | LogFailedReadDagConfig error
  | LogReloadDagEntry string
  | LogRemoveDagEntry string
  | LogWatchError error

text \<open>
  What a call does besides computing its result, in program order: operations on
  \<^verbatim>\<open>dagsLock\<close>, calls to the collaborators outside entry.go, writes to the \<^verbatim>\<open>dags\<close> map,
  log lines, calls of \<^verbatim>\<open>Job\<close> methods, and the start of the watching goroutine.
\<close>

datatype effect =
    Lock
  | Unlock
  | CallReadDir string
  | CallLoadHeadOnly string
  | CallIsSuspended DAG
  | MapStore string DAG
  | MapDelete string
  | Printf logline
  | CallStart
  | CallStop
  | CallRestart
  | GoWatchDags
  | CallWatcherNew
  | CallWatcherAdd string
  | CallWatcherClose
  | LogFatal error

section \<open>Entry.Invoke\<close>

definition Invoke :: "'j JobImpl \<Rightarrow> 'j Entry \<Rightarrow> error option \<times> effect list" where
  "Invoke J e =
     (case Job e of
        None \<Rightarrow> (None, [])
      | Some j \<Rightarrow>
          if EntryType e = EntryTypeStart then
            (Start J j, [Printf (LogInvoke ''start'' (Entry.Next e) (String J j)), CallStart])
          else if EntryType e = EntryTypeStop then
            (Stop J j, [Printf (LogInvoke ''stop'' (Entry.Next e) (String J j)), CallStop])
          else if EntryType e = EntryTypeRestart then
            (Restart J j, [Printf (LogInvoke ''restart'' (Entry.Next e) (String J j)), CallRestart])
          else (None, []))"

section \<open>The entry reader and its collaborators\<close>

text \<open>
  \<^verbatim>\<open>entryReader\<close>: the configuration and the registry \<^verbatim>\<open>dags\<close>, a Go map from file name to
  DAG. The suspension checker and the mutex are not fields of the model: the checker is
  the predicate \<open>IsSuspended\<close> below, and the operations on the mutex are effects.
\<close>

record entryReader =
  Admin :: Config
  dags :: "string \<rightharpoonup> DAG"

text \<open>
  The functions that entry.go calls and that live outside it, as they answer at the time
  of one call: \<^verbatim>\<open>os.ReadDir\<close> (the names of the directory's entries),
  \<^verbatim>\<open>dag.Loader.LoadHeadOnly\<close>, \<^verbatim>\<open>suspend.SuspendChecker.IsSuspended\<close>,
  \<^verbatim>\<open>utils.MatchExtension\<close> applied to \<^verbatim>\<open>dag.EXTENSIONS\<close>, \<^verbatim>\<open>filepath.Join\<close>,
  \<^verbatim>\<open>filepath.Base\<close>, and the outcome of \<^verbatim>\<open>filenotify.New\<close>.
\<close>

record env =
  ReadDir :: "string \<Rightarrow> error + string list"
  LoadHeadOnly :: "string \<Rightarrow> error + DAG"
  IsSuspended :: "DAG \<Rightarrow> bool"
  MatchExtension :: "string \<Rightarrow> bool"
  Join :: "string \<Rightarrow> string \<Rightarrow> string"
  Base :: "string \<Rightarrow> string"
  WatcherNew :: "error option"

section \<open>entryReader.Read\<close>

text \<open>
  The closure \<^verbatim>\<open>f\<close> of \<^verbatim>\<open>Read\<close>: one entry appended to \<^verbatim>\<open>entries\<close> for every schedule
  of the group, in the group's order. \<^verbatim>\<open>Parsed.Next(now)\<close> is called twice, once for the
  job and once for the entry.
\<close>

fun f :: "Config \<Rightarrow> time \<Rightarrow> DAG \<Rightarrow> Schedule list \<Rightarrow> EntryType \<Rightarrow> job Entry list \<Rightarrow> job Entry list" where
  "f cfg now d [] e entries = entries"
| "f cfg now d (ss # s) e entries =
     (let next = Parsed ss now in
      f cfg now d s e
        (entries @
          [\<lparr>Next = Parsed ss now,
            Job = Some \<lparr>DAG = d, Config = cfg, Next = next\<rparr>,
            EntryType = e\<rparr>]))"

text \<open>
  The loop \<^verbatim>\<open>for _, d := range er.dags\<close>. Go leaves the iteration order of a map open;
  the order the runtime picks is the parameter \<open>order\<close>, a list of keys. A key that is
  not in the map contributes nothing.
\<close>

fun Read_range ::
  "env \<Rightarrow> entryReader \<Rightarrow> time \<Rightarrow> string list \<Rightarrow> job Entry list \<times> effect list \<Rightarrow>
   job Entry list \<times> effect list" where
  "Read_range E er now [] acc = acc"
| "Read_range E er now (k # ks) (entries, effs) =
     (case dags er k of
        None \<Rightarrow> Read_range E er now ks (entries, effs)
      | Some d \<Rightarrow>
          if IsSuspended E d then Read_range E er now ks (entries, effs @ [CallIsSuspended d])
          else
            Read_range E er now ks
              (f (Admin er) now d (RestartSchedule d) EntryTypeRestart
                 (f (Admin er) now d (StopSchedule d) EntryTypeStop
                    (f (Admin er) now d (Schedule d) EntryTypeStart entries)),
               effs @ [CallIsSuspended d]))"

text \<open>
  \<^verbatim>\<open>Read\<close> returns the entries and the error; the third component is what it did. The
  deferred \<^verbatim>\<open>Unlock\<close> runs last.
\<close>

definition Read ::
  "env \<Rightarrow> entryReader \<Rightarrow> string list \<Rightarrow> time \<Rightarrow> job Entry list \<times> error option \<times> effect list" where
  "Read E er order now =
     (case Read_range E er now order ([], [Lock]) of
        (entries, effs) \<Rightarrow> (entries, None, effs @ [Unlock]))"

section \<open>entryReader.initDags and newEntryReader\<close>

text \<open>
  The loop of \<^verbatim>\<open>initDags\<close> over the directory's entries \<open>fis\<close> (their names). It carries the
  map, the list \<^verbatim>\<open>fileNames\<close> and the effects. A file that does not load is logged and
  skipped with \<^verbatim>\<open>continue\<close>.
\<close>

fun initDags_range ::
  "env \<Rightarrow> string \<Rightarrow> string list \<Rightarrow> (string \<rightharpoonup> DAG) \<times> string list \<times> effect list \<Rightarrow>
   (string \<rightharpoonup> DAG) \<times> string list \<times> effect list" where
  "initDags_range E dir [] acc = acc"
| "initDags_range E dir (name # fis) (m, fileNames, effs) =
     (if MatchExtension E name then
        (case LoadHeadOnly E (Join E dir name) of
           Inl err \<Rightarrow>
             initDags_range E dir fis
               (m, fileNames,
                effs @ [CallLoadHeadOnly (Join E dir name), Printf (LogInitDagsFailedRead err)])
         | Inr d \<Rightarrow>
             initDags_range E dir fis
               (m(name \<mapsto> d), fileNames @ [name],
                effs @ [CallLoadHeadOnly (Join E dir name), MapStore name d]))
      else initDags_range E dir fis (m, fileNames, effs))"

text \<open>
  \<^verbatim>\<open>initDags\<close> returns its error, the reader as it leaves it, and what it did. The lock is
  taken first and released by the deferred \<^verbatim>\<open>Unlock\<close> on both returns.
\<close>

definition initDags :: "env \<Rightarrow> entryReader \<Rightarrow> error option \<times> entryReader \<times> effect list" where
  "initDags E er =
     (case ReadDir E (DAGs (Admin er)) of
        Inl err \<Rightarrow> (Some err, er, [Lock, CallReadDir (DAGs (Admin er)), Unlock])
      | Inr fis \<Rightarrow>
          (case initDags_range E (DAGs (Admin er)) fis
                  (dags er, [], [Lock, CallReadDir (DAGs (Admin er))]) of
             (m, fileNames, effs) \<Rightarrow>
               (None, er\<lparr>dags := m\<rparr>,
                effs @ [Printf (LogInitSchedulerDags fileNames), Unlock])))"

text \<open>
  \<^verbatim>\<open>newEntryReader\<close> has the single result \<^verbatim>\<open>*entryReader\<close>. An error of \<^verbatim>\<open>initDags\<close> is
  logged; the watching goroutine is started in both cases.
\<close>

definition newEntryReader :: "env \<Rightarrow> Config \<Rightarrow> entryReader \<times> effect list" where
  "newEntryReader E cfg =
     (case initDags E \<lparr>Admin = cfg, dags = Map.empty\<rparr> of
        (None, er, effs) \<Rightarrow> (er, effs @ [GoWatchDags])
      | (Some err, er, effs) \<Rightarrow>
          (er, effs @ [Printf (LogFailedInitEntryDags err), GoWatchDags]))"

section \<open>entryReader.watchDags\<close>

text \<open>
  \<^verbatim>\<open>fsnotify.Op\<close> is a \<^verbatim>\<open>uint32\<close> bit mask with the constants \<^verbatim>\<open>1 << iota\<close>;
  \<^verbatim>\<open>watchDags\<close> compares it with \<^verbatim>\<open>==\<close>.
\<close>

type_synonym Op = "32 word"

definition Create :: Op where
  "Create = 1"

definition Write :: Op where
  "Write = 2"

definition Remove :: Op where
  "Remove = 4"

definition Rename :: Op where
  "Rename = 8"

definition Chmod :: Op where
  "Chmod = 16"

record Event =
  Name :: string
  Op :: Op

text \<open>
  The part of the event case that runs between \<^verbatim>\<open>er.dagsLock.Lock()\<close> and
  \<^verbatim>\<open>er.dagsLock.Unlock()\<close>: the reload on \<^verbatim>\<open>Create\<close> or \<^verbatim>\<open>Write\<close>, then the deletion on
  \<^verbatim>\<open>Rename\<close> or \<^verbatim>\<open>Remove\<close>.
\<close>

definition watchDags_reload :: "env \<Rightarrow> entryReader \<Rightarrow> Event \<Rightarrow> entryReader \<times> effect list" where
  "watchDags_reload E er event =
     (if Op event = Create \<or> Op event = Write then
        (case LoadHeadOnly E (Join E (DAGs (Admin er)) (Base E (Event.Name event))) of
           Inl err \<Rightarrow>
             (er,
              [CallLoadHeadOnly (Join E (DAGs (Admin er)) (Base E (Event.Name event))),
               Printf (LogFailedReadDagConfig err)])
         | Inr d \<Rightarrow>
             (er\<lparr>dags := (dags er)(Base E (Event.Name event) \<mapsto> d)\<rparr>,
              [CallLoadHeadOnly (Join E (DAGs (Admin er)) (Base E (Event.Name event))),
               MapStore (Base E (Event.Name event)) d,
               Printf (LogReloadDagEntry (Event.Name event))]))
      else (er, []))"

definition watchDags_remove :: "env \<Rightarrow> entryReader \<Rightarrow> Event \<Rightarrow> entryReader \<times> effect list" where
  "watchDags_remove E er event =
     (if Op event = Rename \<or> Op event = Remove then
        (er\<lparr>dags := (dags er)(Base E (Event.Name event) := None)\<rparr>,
         [MapDelete (Base E (Event.Name event)), Printf (LogRemoveDagEntry (Event.Name event))])
      else (er, []))"

definition watchDags_locked :: "env \<Rightarrow> entryReader \<Rightarrow> Event \<Rightarrow> entryReader \<times> effect list" where
  "watchDags_locked E er event =
     (case watchDags_reload E er event of
        (er1, effs1) \<Rightarrow>
          (case watchDags_remove E er1 event of
             (er2, effs2) \<Rightarrow> (er2, [Lock] @ effs1 @ effs2 @ [Unlock])))"

text \<open>
  The event case of the \<^verbatim>\<open>select\<close>, for an event that was received: events whose name
  has no recognised extension are dropped before the lock is taken.
\<close>

definition watchDags_event :: "env \<Rightarrow> entryReader \<Rightarrow> Event \<Rightarrow> entryReader \<times> effect list" where
  "watchDags_event E er event =
     (if \<not> MatchExtension E (Event.Name event) then (er, [])
      else watchDags_locked E er event)"

text \<open>
  What the \<^verbatim>\<open>select\<close> receives, in the order the runtime delivers it: an event, an error,
  or the closing of one of the two channels. When nothing more arrives the loop waits.
\<close>

datatype received =
    RecvEvent Event
  | EventsClosed
  | RecvError error
  | ErrorsClosed

datatype outcome = Exited | Returned | Waiting

fun watchDags_loop ::
  "env \<Rightarrow> received list \<Rightarrow> entryReader \<times> effect list \<Rightarrow> outcome \<times> entryReader \<times> effect list" where
  "watchDags_loop E [] (er, effs) = (Waiting, er, effs)"
| "watchDags_loop E (RecvEvent event # rs) (er, effs) =
     (case watchDags_event E er event of
        (er', effs') \<Rightarrow> watchDags_loop E rs (er', effs @ effs'))"
| "watchDags_loop E (EventsClosed # rs) (er, effs) = (Returned, er, effs)"
| "watchDags_loop E (RecvError err # rs) (er, effs) =
     watchDags_loop E rs (er, effs @ [Printf (LogWatchError err)])"
| "watchDags_loop E (ErrorsClosed # rs) (er, effs) = (Returned, er, effs)"

text \<open>
  \<^verbatim>\<open>watchDags\<close>: \<^verbatim>\<open>log.Fatal\<close> ends the process when the watcher cannot be created; the
  error of \<^verbatim>\<open>watcher.Add\<close> is discarded; the deferred \<^verbatim>\<open>Close\<close> runs when the loop returns.
\<close>

definition watchDags :: "env \<Rightarrow> entryReader \<Rightarrow> received list \<Rightarrow> outcome \<times> entryReader \<times> effect list" where
  "watchDags E er rs =
     (case WatcherNew E of
        Some err \<Rightarrow> (Exited, er, [CallWatcherNew, LogFatal err])
      | None \<Rightarrow>
          (case watchDags_loop E rs (er, [CallWatcherNew, CallWatcherAdd (DAGs (Admin er))]) of
             (Returned, er', effs) \<Rightarrow> (Returned, er', effs @ [CallWatcherClose])
           | (out, er', effs) \<Rightarrow> (out, er', effs)))"

section \<open>Notions used to state the properties\<close>

text \<open>
  The action that the specification's production step emits for one schedule expression
  of a group: the kind of the group, the expression's next occurrence after \<open>now\<close>, and a
  job handle for the workflow.
\<close>

definition action :: "Config \<Rightarrow> time \<Rightarrow> DAG \<Rightarrow> EntryType \<Rightarrow> Schedule \<Rightarrow> job Entry" where
  "action cfg now d e ss =
     \<lparr>Next = Parsed ss now,
      Job = Some \<lparr>DAG = d, Config = cfg, Next = Parsed ss now\<rparr>,
      EntryType = e\<rparr>"

text \<open>
  The specification's production step for one workflow: nothing when the workflow is
  suspended, otherwise one action per expression of the start, stop and restart groups.
\<close>

definition produce_for :: "env \<Rightarrow> Config \<Rightarrow> time \<Rightarrow> DAG \<Rightarrow> job Entry list" where
  "produce_for E cfg now d =
     (if IsSuspended E d then []
      else map (action cfg now d EntryTypeStart) (Schedule d) @
           map (action cfg now d EntryTypeStop) (StopSchedule d) @
           map (action cfg now d EntryTypeRestart) (RestartSchedule d))"

text \<open>The warning that \<open>initDags\<close> logs for a definition file that does not load.\<close>

fun is_load_warning :: "effect \<Rightarrow> bool" where
  "is_load_warning (Printf (LogInitDagsFailedRead err)) = True"
| "is_load_warning _ = False"

text \<open>What one iteration of the loop of \<open>initDags\<close> does for the directory entry \<open>name\<close>.\<close>

definition initDags_step :: "env \<Rightarrow> string \<Rightarrow> string \<Rightarrow> effect list" where
  "initDags_step E dir name =
     (if MatchExtension E name then
        (case LoadHeadOnly E (Join E dir name) of
           Inl err \<Rightarrow> [CallLoadHeadOnly (Join E dir name), Printf (LogInitDagsFailedRead err)]
         | Inr d \<Rightarrow> [CallLoadHeadOnly (Join E dir name), MapStore name d])
      else [])"

text \<open>
  The scope of \<^verbatim>\<open>dagsLock\<close> within the effects of one call, which runs on one goroutine:
  \<open>lock_after h effs\<close> tells whether the lock is held after \<open>effs\<close> when it was held (\<open>h\<close>) or
  free before; \<open>held_by\<close> pairs every effect other than \<open>Lock\<close> and \<open>Unlock\<close> with whether
  the lock is held when it happens; \<open>inside_lock\<close> and \<open>outside_lock\<close> are the effects that
  happen with the lock held and with the lock free.
\<close>

fun lock_after :: "bool \<Rightarrow> effect list \<Rightarrow> bool" where
  "lock_after h [] = h"
| "lock_after h (Lock # es) = lock_after True es"
| "lock_after h (Unlock # es) = lock_after False es"
| "lock_after h (e # es) = lock_after h es"

fun held_by :: "bool \<Rightarrow> effect list \<Rightarrow> (bool \<times> effect) list" where
  "held_by h [] = []"
| "held_by h (Lock # es) = held_by True es"
| "held_by h (Unlock # es) = held_by False es"
| "held_by h (e # es) = (h, e) # held_by h es"

definition inside_lock :: "effect list \<Rightarrow> effect list" where
  "inside_lock effs = map snd (filter fst (held_by False effs))"

definition outside_lock :: "effect list \<Rightarrow> effect list" where
  "outside_lock effs = map snd (filter (\<lambda>p. \<not> fst p) (held_by False effs))"

section \<open>Collaborators outside entry.go, modelled from the specification\<close>

subsection \<open>Schedule expressions\<close>

text \<open>
  Modelled from the spec: the implementation behind \<^verbatim>\<open>cron.Schedule.Next\<close> is missing. The
  specification describes a schedule expression as a rule for recurring points in time
  that produces the next timestamp strictly after a given instant that satisfies the
  expression. An expression is represented by the set of instants that satisfy it, as a
  predicate; \<open>first_from sat t\<close> is the first instant from \<open>t\<close> on that satisfies \<open>sat\<close>, found
  by stepping through the seconds, and it is \<open>None\<close> when the search does not end.
\<close>

partial_function (option) first_from :: "(time \<Rightarrow> bool) \<Rightarrow> time \<Rightarrow> time option" where
  "first_from sat t = (if sat t then Some t else first_from sat (t + 1))"

text \<open>
  Modelled from the spec: \<^verbatim>\<open>nextAfter(now)\<close> of the missing schedule implementation, the next
  timestamp strictly after \<open>now\<close> that satisfies the expression.
\<close>

definition nextAfter :: "(time \<Rightarrow> bool) \<Rightarrow> time \<Rightarrow> time option" where
  "nextAfter sat now = first_from sat (now + 1)"





subsection \<open>The debounced change watcher\<close>

text \<open>
  Modelled from the spec: the watcher behind \<^verbatim>\<open>filenotify.New\<close> is missing. The specification
  gives it a debounce state that maps a path to its pending event and timer. Here the
  state is a list of paths with the last event kind observed and the instant at which the
  coalescing window of the path elapses.
\<close>

type_synonym pending = "(string \<times> Op \<times> time) list"

text \<open>Modelled from the spec: the timer of a pending path of the missing watcher has elapsed at \<open>t\<close>.\<close>

fun due :: "time \<Rightarrow> string \<times> Op \<times> time \<Rightarrow> bool" where
  "due t (p, k, deadline) = (deadline \<le> t)"

text \<open>
  Modelled from the spec: the event that the missing watcher delivers for a pending path,
  with the last kind observed for it.
\<close>

fun deliver :: "string \<times> Op \<times> time \<Rightarrow> Event" where
  "deliver (p, k, deadline) = \<lparr>Name = p, Op = k\<rparr>"

text \<open>
  Modelled from the spec: at the instant \<open>t\<close> the missing watcher delivers the pending events
  whose window has elapsed with no further event for their path.
\<close>

definition fire :: "time \<Rightarrow> pending \<times> Event list \<Rightarrow> pending \<times> Event list" where
  "fire t st =
     (case st of (pend, out) \<Rightarrow>
        (filter (\<lambda>x. \<not> due t x) pend, out @ map deliver (filter (due t) pend)))"

text \<open>
  Modelled from the spec: a raw event at \<open>t\<close> replaces the pending kind of its path in the
  missing watcher and resets the path's timer to a full window \<open>w\<close>.
\<close>

definition arm :: "time \<Rightarrow> time \<Rightarrow> Event \<Rightarrow> pending \<Rightarrow> pending" where
  "arm w t ev pend = filter (\<lambda>x. fst x \<noteq> Event.Name ev) pend @ [(Event.Name ev, Op ev, t + w)]"

text \<open>
  Modelled from the spec: the missing watcher consumes the raw events, each with the instant
  at which it arrives, in order of arrival.
\<close>

fun debounce_run :: "time \<Rightarrow> (time \<times> Event) list \<Rightarrow> pending \<times> Event list \<Rightarrow> pending \<times> Event list" where
  "debounce_run w [] st = st"
| "debounce_run w ((t, ev) # raws) st =
     (case fire t st of (pend, out) \<Rightarrow> debounce_run w raws (arm w t ev pend, out))"

text \<open>
  Modelled from the spec: the events that the missing watcher delivers for the raw events
  \<open>raws\<close>, once the windows of all pending paths have elapsed.
\<close>

definition debounce :: "time \<Rightarrow> (time \<times> Event) list \<Rightarrow> Event list" where
  "debounce w raws =
     (case debounce_run w raws ([], []) of (pend, out) \<Rightarrow> out @ map deliver pend)"

text \<open>
  Modelled from the spec: the raw events arrive in order of time, each within the
  coalescing window \<open>w\<close> of the missing watcher that the one before it opened.
\<close>

fun within_window :: "time \<Rightarrow> (time \<times> Event) list \<Rightarrow> bool" where
  "within_window w [] = True"
| "within_window w [x] = True"
| "within_window w (x # y # raws) =
     (fst x \<le> fst y \<and> fst y < fst x + w \<and> within_window w (y # raws))"

section \<open>Concrete inputs\<close>

text \<open>
  A small installation used to evaluate the definitions: a directory \<^verbatim>\<open>dags\<close> with the
  loadable definitions \<^verbatim>\<open>a.yaml\<close> and \<^verbatim>\<open>c.yaml\<close> and the malformed definition
  \<^verbatim>\<open>b.yaml\<close>; the workflow \<^verbatim>\<open>c\<close> is suspended. Times are seconds since the epoch; the two
  schedules run at every full minute and at every midnight (UTC).
\<close>

definition every_minute :: Schedule where
  "every_minute = \<lparr>Expression = ''* * * * *'', Parsed = (\<lambda>t. (t div 60 + 1) * 60)\<rparr>"

definition at_midnight :: Schedule where
  "at_midnight = \<lparr>Expression = ''0 0 * * *'', Parsed = (\<lambda>t. (t div 86400 + 1) * 86400)\<rparr>"

definition dag_a :: DAG where
  "dag_a = \<lparr>DAG.Name = ''a'', Schedule = [every_minute], StopSchedule = [at_midnight], RestartSchedule = []\<rparr>"

definition dag_c :: DAG where
  "dag_c = \<lparr>DAG.Name = ''c'', Schedule = [at_midnight], StopSchedule = [], RestartSchedule = [every_minute]\<rparr>"

definition has_suffix :: "string \<Rightarrow> string \<Rightarrow> bool" where
  "has_suffix sfx s = (length sfx \<le> length s \<and> drop (length s - length sfx) s = sfx)"

definition last_element :: "string \<Rightarrow> string" where
  "last_element p = rev (takeWhile (\<lambda>c. c \<noteq> CHR ''/'') (rev p))"

definition env0 :: env where
  "env0 =
     \<lparr>ReadDir = (\<lambda>dir. if dir = ''dags'' then Inr [''a.yaml'', ''b.yaml'', ''c.yaml'']
                       else Inl ''no such directory''),
      LoadHeadOnly = (\<lambda>p. if p = ''dags/a.yaml'' then Inr dag_a
                           else if p = ''dags/c.yaml'' then Inr dag_c
                           else Inl ''cannot load''),
      IsSuspended = (\<lambda>d. DAG.Name d = ''c''),
      MatchExtension = (\<lambda>n. has_suffix ''.yaml'' n \<or> has_suffix ''.yml'' n),
      Join = (\<lambda>dir n. dir @ ''/'' @ n),
      Base = last_element,
      WatcherNew = None\<rparr>"

definition cfg0 :: Config where
  "cfg0 = \<lparr>DAGs = ''dags''\<rparr>"

definition er0 :: entryReader where
  "er0 = \<lparr>Admin = cfg0, dags = [''a.yaml'' \<mapsto> dag_a, ''c.yaml'' \<mapsto> dag_c]\<rparr>"

definition job_impl0 :: "job JobImpl" where
  "job_impl0 =
     \<lparr>String = (\<lambda>j. DAG.Name (DAG j)),
      Start = (\<lambda>j. if DAG.Name (DAG j) = ''a'' then None else Some ''not startable''),
      Stop = (\<lambda>j. Some ''not running''),
      Restart = (\<lambda>j. None)\<rparr>"

definition er1 :: entryReader where
  "er1 = \<lparr>Admin = cfg0, dags = [''b.yaml'' \<mapsto> dag_c]\<rparr>"

definition env_unreadable :: env where
  "env_unreadable = env0\<lparr>ReadDir := (\<lambda>dir. Inl ''permission denied'')\<rparr>"

definition env_empty :: env where
  "env_empty = env0\<lparr>ReadDir := (\<lambda>dir. Inr [])\<rparr>"

definition env_no_watcher :: env where
  "env_no_watcher = env0\<lparr>WatcherNew := Some ''too many open files''\<rparr>"

section \<open>Properties of Read\<close>

lemma f_appends: "f cfg now d s e entries = entries @ map (action cfg now d e) s"
  by (induction s arbitrary: entries) (simp_all add: action_def)

lemma Read_range_entries:
  "fst (Read_range E er now ks (entries, effs)) =
     entries @
     concat (map (\<lambda>k. case dags er k of None \<Rightarrow> [] | Some d \<Rightarrow> produce_for E (Admin er) now d) ks)"
  by (induction ks arbitrary: entries effs)
     (simp_all add: f_appends produce_for_def split: option.splits)

lemma Read_entries:
  "fst (Read E er order now) =
     concat (map (\<lambda>k. case dags er k of None \<Rightarrow> [] | Some d \<Rightarrow> produce_for E (Admin er) now d) order)"
proof -
  obtain entries effs where r: "Read_range E er now order ([], [Lock]) = (entries, effs)"
    by (cases "Read_range E er now order ([], [Lock])")
  from Read_range_entries [of E er now order "[]" "[Lock]"] r
  have "entries =
      concat (map (\<lambda>k. case dags er k of None \<Rightarrow> [] | Some d \<Rightarrow> produce_for E (Admin er) now d) order)"
    by simp
  then show ?thesis using r by (simp add: Read_def)
qed

lemma mset_concat_map: "mset (concat (map g xs)) = (\<Sum>x\<leftarrow>xs. mset (g x))"
  by (induction xs) simp_all

lemma Read_entries_in_dom:
  assumes "set order = dom (dags er)"
  shows "fst (Read E er order now) =
     concat (map (\<lambda>k. produce_for E (Admin er) now (the (dags er k))) order)"
  unfolding Read_entries
proof (rule arg_cong [where f = concat], rule map_cong)
  fix k assume "k \<in> set order"
  then obtain d where "dags er k = Some d" using assms by auto
  then show "(case dags er k of None \<Rightarrow> [] | Some d \<Rightarrow> produce_for E (Admin er) now d) =
      produce_for E (Admin er) now (the (dags er k))"
    by simp
qed simp

lemma Read_mset:
  assumes "distinct order" and "set order = dom (dags er)"
  shows "mset (fst (Read E er order now)) =
     (\<Sum>k\<in>dom (dags er). mset (produce_for E (Admin er) now (the (dags er k))))"
proof -
  have "mset (fst (Read E er order now)) =
       (\<Sum>k\<leftarrow>order. mset (produce_for E (Admin er) now (the (dags er k))))"
    using assms(2) by (simp add: Read_entries_in_dom mset_concat_map)
  also have "\<dots> = (\<Sum>k\<in>set order. mset (produce_for E (Admin er) now (the (dags er k))))"
    using assms(1) by (rule sum_list_distinct_conv_sum_set)
  finally show ?thesis by (simp add: assms(2))
qed

lemma produce_for_kinds:
  "\<not> IsSuspended E d \<Longrightarrow>
   map EntryType (produce_for E cfg now d) =
     replicate (length (Schedule d)) EntryTypeStart @
     replicate (length (StopSchedule d)) EntryTypeStop @
     replicate (length (RestartSchedule d)) EntryTypeRestart"
  by (simp add: produce_for_def action_def comp_def map_replicate_const)

lemma produce_for_times:
  "\<not> IsSuspended E d \<Longrightarrow>
   map Entry.Next (produce_for E cfg now d) =
     map (\<lambda>ss. Parsed ss now) (Schedule d @ StopSchedule d @ RestartSchedule d)"
  by (simp add: produce_for_def action_def comp_def)

lemma produce_for_job:
  "e \<in> set (produce_for E cfg now d) \<Longrightarrow>
   Job e = Some \<lparr>DAG = d, Config = cfg, Next = Entry.Next e\<rparr> \<and> \<not> IsSuspended E d"
  by (auto simp: produce_for_def action_def split: if_splits)

lemma Read_entry_origin:
  assumes "e \<in> set (fst (Read E er order now))"
  shows "\<exists>k d. k \<in> set order \<and> dags er k = Some d \<and> e \<in> set (produce_for E (Admin er) now d)"
proof -
  from assms obtain k where k: "k \<in> set order"
    and e: "e \<in> set (case dags er k of None \<Rightarrow> [] | Some d \<Rightarrow> produce_for E (Admin er) now d)"
    by (auto simp: Read_entries)
  show ?thesis
  proof (cases "dags er k")
    case None
    with e show ?thesis by simp
  next
    case (Some d)
    with e k show ?thesis by auto
  qed
qed

text \<open>
  C1. For every registry, every instant \<open>now\<close> and every order in which the runtime
  enumerates the registry's keys, the entries that \<open>Read\<close> returns are the concatenation,
  over the workflows of the registry, of what the production step emits for each: nothing
  for a workflow whose suspension predicate is true (no returned entry refers to it), and
  for a workflow whose predicate is false exactly one entry per schedule expression of
  the start, stop and restart groups, of the group's kind, stamped with the expression's
  next occurrence after \<open>now\<close>, with a job handle for that workflow. As a multiset the
  result does not depend on the enumeration order.
\<close>

theorem Read_emits_per_workflow:
  assumes "distinct order" and "set order = dom (dags er)"
  shows "fst (Read E er order now) =
           concat (map (\<lambda>k. produce_for E (Admin er) now (the (dags er k))) order) \<and>
         mset (fst (Read E er order now)) =
           (\<Sum>k\<in>dom (dags er). mset (produce_for E (Admin er) now (the (dags er k)))) \<and>
         (\<forall>k d. dags er k = Some d \<and> IsSuspended E d \<longrightarrow>
            produce_for E (Admin er) now d = [] \<and>
            (\<forall>e\<in>set (fst (Read E er order now)). \<forall>j. Job e = Some j \<longrightarrow> DAG j \<noteq> d)) \<and>
         (\<forall>k d. dags er k = Some d \<and> \<not> IsSuspended E d \<longrightarrow>
            length (produce_for E (Admin er) now d) =
              length (Schedule d) + length (StopSchedule d) + length (RestartSchedule d) \<and>
            map EntryType (produce_for E (Admin er) now d) =
              replicate (length (Schedule d)) EntryTypeStart @
              replicate (length (StopSchedule d)) EntryTypeStop @
              replicate (length (RestartSchedule d)) EntryTypeRestart \<and>
            map Entry.Next (produce_for E (Admin er) now d) =
              map (\<lambda>ss. Parsed ss now) (Schedule d @ StopSchedule d @ RestartSchedule d) \<and>
            (\<forall>e\<in>set (produce_for E (Admin er) now d).
               Job e = Some \<lparr>DAG = d, Config = Admin er, Next = Entry.Next e\<rparr>))"
proof (intro conjI allI impI ballI)
  show "fst (Read E er order now) =
      concat (map (\<lambda>k. produce_for E (Admin er) now (the (dags er k))) order)"
    using assms(2) by (rule Read_entries_in_dom)
next
  show "mset (fst (Read E er order now)) =
      (\<Sum>k\<in>dom (dags er). mset (produce_for E (Admin er) now (the (dags er k))))"
    using assms by (rule Read_mset)
next
  fix k d assume "dags er k = Some d \<and> IsSuspended E d"
  then show "produce_for E (Admin er) now d = []" by (simp add: produce_for_def)
next
  fix k d e j
  assume s: "dags er k = Some d \<and> IsSuspended E d"
    and e: "e \<in> set (fst (Read E er order now))" and j: "Job e = Some j"
  from Read_entry_origin [OF e] obtain k' d'
    where "e \<in> set (produce_for E (Admin er) now d')" by blast
  from produce_for_job [OF this] j have "DAG j = d'" and "\<not> IsSuspended E d'" by auto
  with s show "DAG j \<noteq> d" by auto
next
  fix k d assume "dags er k = Some d \<and> \<not> IsSuspended E d"
  then show "length (produce_for E (Admin er) now d) =
      length (Schedule d) + length (StopSchedule d) + length (RestartSchedule d)"
    by (simp add: produce_for_def)
next
  fix k d assume "dags er k = Some d \<and> \<not> IsSuspended E d"
  then show "map EntryType (produce_for E (Admin er) now d) =
      replicate (length (Schedule d)) EntryTypeStart @
      replicate (length (StopSchedule d)) EntryTypeStop @
      replicate (length (RestartSchedule d)) EntryTypeRestart"
    by (simp add: produce_for_kinds)
next
  fix k d assume "dags er k = Some d \<and> \<not> IsSuspended E d"
  then show "map Entry.Next (produce_for E (Admin er) now d) =
      map (\<lambda>ss. Parsed ss now) (Schedule d @ StopSchedule d @ RestartSchedule d)"
    by (simp add: produce_for_times)
next
  fix k d e
  assume "dags er k = Some d \<and> \<not> IsSuspended E d" and "e \<in> set (produce_for E (Admin er) now d)"
  then show "Job e = Some \<lparr>DAG = d, Config = Admin er, Next = Entry.Next e\<rparr>"
    using produce_for_job by blast
qed

theorem Read_emits_per_workflow_witness:
  "distinct [''c.yaml'', ''a.yaml''] \<and>
   set [''c.yaml'', ''a.yaml''] = dom (dags er0) \<and>
   fst (Read env0 er0 [''c.yaml'', ''a.yaml''] 90) =
     [\<lparr>Next = 120, Job = Some \<lparr>DAG = dag_a, Config = cfg0, Next = 120\<rparr>, EntryType = EntryTypeStart\<rparr>,
      \<lparr>Next = 86400, Job = Some \<lparr>DAG = dag_a, Config = cfg0, Next = 86400\<rparr>, EntryType = EntryTypeStop\<rparr>]"
proof -
  have h1: "distinct [''c.yaml'', ''a.yaml'']" by simp
  have h2: "set [''c.yaml'', ''a.yaml''] = dom (dags er0)" by (auto simp: er0_def)
  have c: "dag_c = \<lparr>DAG.Name = ''c'', Schedule = [at_midnight], StopSchedule = [], RestartSchedule = [every_minute]\<rparr>"
    by (simp add: dag_c_def)
  have a: "DAG.Name dag_a = ''a''" "Schedule dag_a = [every_minute]"
    "StopSchedule dag_a = [at_midnight]" "RestartSchedule dag_a = []"
    by (simp_all add: dag_a_def)
  from Read_emits_per_workflow [OF h1 h2, of env0 90]
  have "fst (Read env0 er0 [''c.yaml'', ''a.yaml''] 90) =
      concat (map (\<lambda>k. produce_for env0 (Admin er0) 90 (the (dags er0 k))) [''c.yaml'', ''a.yaml''])"
    by blast
  also have "\<dots> =
     [\<lparr>Next = 120, Job = Some \<lparr>DAG = dag_a, Config = cfg0, Next = 120\<rparr>, EntryType = EntryTypeStart\<rparr>,
      \<lparr>Next = 86400, Job = Some \<lparr>DAG = dag_a, Config = cfg0, Next = 86400\<rparr>, EntryType = EntryTypeStop\<rparr>]"
    by (simp add: er0_def env0_def produce_for_def action_def a c every_minute_def at_midnight_def)
  finally show ?thesis using h1 h2 by simp
qed


section \<open>Properties of Invoke\<close>

lemma Invoke_other_kind:
  "EntryType e \<notin> {EntryTypeStart, EntryTypeStop, EntryTypeRestart} \<Longrightarrow> Invoke J e = (None, [])"
  by (simp add: Invoke_def split: option.splits)

text \<open>
  C7. \<open>Invoke\<close> returns \<^verbatim>\<open>nil\<close> and does nothing (no log line, no call of a job method) when
  the entry's job handle is absent. With a job handle \<open>j\<close> and the kind start, stop or
  restart it writes one log line and calls exactly the method of that kind, once, and
  returns the error of that call unchanged.
\<close>

theorem Invoke_dispatch:
  "(Job e = None \<longrightarrow> Invoke J e = (None, [])) \<and>
   (\<forall>j. Job e = Some j \<longrightarrow>
      (EntryType e = EntryTypeStart \<longrightarrow>
         Invoke J e =
           (Start J j, [Printf (LogInvoke ''start'' (Entry.Next e) (String J j)), CallStart])) \<and>
      (EntryType e = EntryTypeStop \<longrightarrow>
         Invoke J e =
           (Stop J j, [Printf (LogInvoke ''stop'' (Entry.Next e) (String J j)), CallStop])) \<and>
      (EntryType e = EntryTypeRestart \<longrightarrow>
         Invoke J e =
           (Restart J j, [Printf (LogInvoke ''restart'' (Entry.Next e) (String J j)), CallRestart])))"
proof (cases "Job e")
  case None
  then show ?thesis by (simp add: Invoke_def)
next
  case (Some j)
  then show ?thesis
    by (simp add: Invoke_def EntryTypeStart_def EntryTypeStop_def EntryTypeRestart_def)
qed

theorem Invoke_dispatch_witness:
  "Invoke job_impl0 \<lparr>Next = 120, Job = None, EntryType = EntryTypeStop\<rparr> = (None, []) \<and>
   Invoke job_impl0
     \<lparr>Next = 120, Job = Some \<lparr>DAG = dag_a, Config = cfg0, Next = 120\<rparr>, EntryType = EntryTypeStop\<rparr> =
     (Some ''not running'', [Printf (LogInvoke ''stop'' 120 ''a''), CallStop]) \<and>
   Invoke job_impl0
     \<lparr>Next = 120, Job = Some \<lparr>DAG = dag_c, Config = cfg0, Next = 120\<rparr>, EntryType = EntryTypeStart\<rparr> =
     (Some ''not startable'', [Printf (LogInvoke ''start'' 120 ''c''), CallStart])"
  using
    Invoke_dispatch [of "\<lparr>Next = 120, Job = None, EntryType = EntryTypeStop\<rparr>" job_impl0]
    Invoke_dispatch [of "\<lparr>Next = 120, Job = Some \<lparr>DAG = dag_a, Config = cfg0, Next = 120\<rparr>,
                          EntryType = EntryTypeStop\<rparr>" job_impl0]
    Invoke_dispatch [of "\<lparr>Next = 120, Job = Some \<lparr>DAG = dag_c, Config = cfg0, Next = 120\<rparr>,
                          EntryType = EntryTypeStart\<rparr>" job_impl0]
  by (simp add: job_impl0_def dag_a_def dag_c_def)

section \<open>Properties of initDags and newEntryReader\<close>

lemma initDags_range_map:
  "fst (initDags_range E dir fis (m, fileNames, effs)) n =
     (if n \<in> set fis \<and> MatchExtension E n then
        (case LoadHeadOnly E (Join E dir n) of Inl err \<Rightarrow> m n | Inr d \<Rightarrow> Some d)
      else m n)"
  by (induction fis arbitrary: m fileNames effs) (auto split: sum.splits)

lemma initDags_range_fileNames:
  "fst (snd (initDags_range E dir fis (m, fileNames, effs))) =
     fileNames @ filter (\<lambda>n. MatchExtension E n \<and> isl (LoadHeadOnly E (Join E dir n)) = False) fis"
  by (induction fis arbitrary: m fileNames effs) (auto split: sum.splits)

lemma initDags_range_effects:
  "snd (snd (initDags_range E dir fis (m, fileNames, effs))) =
     effs @ concat (map (initDags_step E dir) fis)"
  by (induction fis arbitrary: m fileNames effs) (auto simp: initDags_step_def split: sum.splits)

lemma warnings_count:
  "length (filter is_load_warning (concat (map (initDags_step E dir) fis))) =
   length (filter (\<lambda>n. MatchExtension E n \<and> isl (LoadHeadOnly E (Join E dir n))) fis)"
  by (induction fis) (auto simp: initDags_step_def split: sum.splits)

lemma initDags_ok:
  assumes "ReadDir E (DAGs (Admin er)) = Inr fis"
  shows "fst (initDags E er) = None"
    and "dags (fst (snd (initDags E er))) n =
     (if n \<in> set fis \<and> MatchExtension E n then
        (case LoadHeadOnly E (Join E (DAGs (Admin er)) n) of Inl err \<Rightarrow> dags er n | Inr d \<Rightarrow> Some d)
      else dags er n)"
    and "snd (snd (initDags E er)) =
       [Lock, CallReadDir (DAGs (Admin er))] @ concat (map (initDags_step E (DAGs (Admin er))) fis) @
       [Printf (LogInitSchedulerDags
          (filter (\<lambda>n. MatchExtension E n \<and> isl (LoadHeadOnly E (Join E (DAGs (Admin er)) n)) = False) fis)),
        Unlock]"
proof -
  obtain m fileNames effs where r:
    "initDags_range E (DAGs (Admin er)) fis (dags er, [], [Lock, CallReadDir (DAGs (Admin er))]) =
       (m, fileNames, effs)"
    by (cases "initDags_range E (DAGs (Admin er)) fis (dags er, [], [Lock, CallReadDir (DAGs (Admin er))])")
  have i: "initDags E er =
      (None, er\<lparr>dags := m\<rparr>, effs @ [Printf (LogInitSchedulerDags fileNames), Unlock])"
    using assms r by (simp add: initDags_def)
  show "fst (initDags E er) = None" by (simp add: i)
  from initDags_range_map [of E "DAGs (Admin er)" fis "dags er" "[]" "[Lock, CallReadDir (DAGs (Admin er))]" n] r
  show "dags (fst (snd (initDags E er))) n =
     (if n \<in> set fis \<and> MatchExtension E n then
        (case LoadHeadOnly E (Join E (DAGs (Admin er)) n) of Inl err \<Rightarrow> dags er n | Inr d \<Rightarrow> Some d)
      else dags er n)"
    by (simp add: i)
  from initDags_range_fileNames [of E "DAGs (Admin er)" fis "dags er" "[]" "[Lock, CallReadDir (DAGs (Admin er))]"]
       initDags_range_effects [of E "DAGs (Admin er)" fis "dags er" "[]" "[Lock, CallReadDir (DAGs (Admin er))]"] r
  show "snd (snd (initDags E er)) =
       [Lock, CallReadDir (DAGs (Admin er))] @ concat (map (initDags_step E (DAGs (Admin er))) fis) @
       [Printf (LogInitSchedulerDags
          (filter (\<lambda>n. MatchExtension E n \<and> isl (LoadHeadOnly E (Join E (DAGs (Admin er)) n)) = False) fis)),
        Unlock]"
    by (simp add: i)
qed

text \<open>
  C2. Let the directory listing succeed with the distinct entries \<open>fis\<close>, all of a recognised
  extension, and let the registry be empty, as it is when \<open>newEntryReader\<close> calls \<open>initDags\<close>.
  Then \<open>initDags\<close> returns no error; the keys of the registry afterwards are exactly the names
  whose definition file loads, each mapped to the loaded head, so there are as many entries
  as loadable files (N); a file that does not load has no entry; and the number of warnings
  logged is the number of files that do not load (M).
\<close>

theorem initDags_partial_success:
  assumes "ReadDir E (DAGs (Admin er)) = Inr fis" and "distinct fis"
    and "\<forall>n\<in>set fis. MatchExtension E n" and "dags er = Map.empty"
  shows "fst (initDags E er) = None \<and>
         dom (dags (fst (snd (initDags E er)))) =
           {n \<in> set fis. \<exists>d. LoadHeadOnly E (Join E (DAGs (Admin er)) n) = Inr d} \<and>
         (\<forall>n d. n \<in> set fis \<and> LoadHeadOnly E (Join E (DAGs (Admin er)) n) = Inr d \<longrightarrow>
            dags (fst (snd (initDags E er))) n = Some d) \<and>
         (\<forall>n err. n \<in> set fis \<and> LoadHeadOnly E (Join E (DAGs (Admin er)) n) = Inl err \<longrightarrow>
            dags (fst (snd (initDags E er))) n = None) \<and>
         card (dom (dags (fst (snd (initDags E er))))) =
           length (filter (\<lambda>n. \<exists>d. LoadHeadOnly E (Join E (DAGs (Admin er)) n) = Inr d) fis) \<and>
         length (filter is_load_warning (snd (snd (initDags E er)))) =
           length (filter (\<lambda>n. \<exists>err. LoadHeadOnly E (Join E (DAGs (Admin er)) n) = Inl err) fis)"
proof -
  let ?load = "\<lambda>n. LoadHeadOnly E (Join E (DAGs (Admin er)) n)"
  let ?m = "dags (fst (snd (initDags E er)))"
  have m: "?m n = (if n \<in> set fis then (case ?load n of Inl err \<Rightarrow> None | Inr d \<Rightarrow> Some d) else None)" for n
    using initDags_ok(2) [OF assms(1), of n] assms(3,4) by (auto split: sum.splits)
  have dom: "dom ?m = {n \<in> set fis. \<exists>d. ?load n = Inr d}"
  proof (rule set_eqI)
    fix n show "n \<in> dom ?m \<longleftrightarrow> n \<in> {n \<in> set fis. \<exists>d. ?load n = Inr d}"
      by (cases "?load n") (simp_all add: m dom_def)
  qed
  have "card (dom ?m) = card (set (filter (\<lambda>n. \<exists>d. ?load n = Inr d) fis))"
    by (simp add: dom)
  also have "\<dots> = length (filter (\<lambda>n. \<exists>d. ?load n = Inr d) fis)"
    by (rule distinct_card) (simp add: assms(2))
  finally have card: "card (dom ?m) = length (filter (\<lambda>n. \<exists>d. ?load n = Inr d) fis)" .
  have "filter (\<lambda>n. MatchExtension E n \<and> isl (?load n)) fis = filter (\<lambda>n. \<exists>err. ?load n = Inl err) fis"
    using assms(3) by (intro filter_cong) (auto simp: isl_def)
  then have warn: "length (filter is_load_warning (snd (snd (initDags E er)))) =
      length (filter (\<lambda>n. \<exists>err. ?load n = Inl err) fis)"
    using warnings_count [of E "DAGs (Admin er)" fis] by (simp add: initDags_ok(3) [OF assms(1)])
  show ?thesis
    using initDags_ok(1) [OF assms(1)] dom card warn by (simp add: m)
qed

theorem initDags_partial_success_witness:
  "ReadDir env0 (DAGs (Admin \<lparr>Admin = cfg0, dags = Map.empty\<rparr>)) = Inr [''a.yaml'', ''b.yaml'', ''c.yaml''] \<and>
   distinct [''a.yaml'', ''b.yaml'', ''c.yaml''] \<and>
   MatchExtension env0 ''a.yaml'' \<and> MatchExtension env0 ''b.yaml'' \<and> MatchExtension env0 ''c.yaml'' \<and>
   fst (initDags env0 \<lparr>Admin = cfg0, dags = Map.empty\<rparr>) = None \<and>
   dags (fst (snd (initDags env0 \<lparr>Admin = cfg0, dags = Map.empty\<rparr>))) ''a.yaml'' = Some dag_a \<and>
   dags (fst (snd (initDags env0 \<lparr>Admin = cfg0, dags = Map.empty\<rparr>))) ''b.yaml'' = None \<and>
   dags (fst (snd (initDags env0 \<lparr>Admin = cfg0, dags = Map.empty\<rparr>))) ''c.yaml'' = Some dag_c \<and>
   card (dom (dags (fst (snd (initDags env0 \<lparr>Admin = cfg0, dags = Map.empty\<rparr>))))) = 2 \<and>
   length (filter is_load_warning (snd (snd (initDags env0 \<lparr>Admin = cfg0, dags = Map.empty\<rparr>)))) = 1"
proof -
  let ?er = "\<lparr>Admin = cfg0, dags = Map.empty\<rparr>"
  let ?fis = "[''a.yaml'', ''b.yaml'', ''c.yaml'']"
  have h1: "ReadDir env0 (DAGs (Admin ?er)) = Inr ?fis" by (simp add: env0_def cfg0_def)
  have h2: "distinct ?fis" by simp
  have h3: "\<forall>n\<in>set ?fis. MatchExtension env0 n" by (simp add: env0_def has_suffix_def)
  have h4: "dags ?er = Map.empty" by simp
  have la: "LoadHeadOnly env0 (Join env0 (DAGs (Admin ?er)) ''a.yaml'') = Inr dag_a"
    and lb: "LoadHeadOnly env0 (Join env0 (DAGs (Admin ?er)) ''b.yaml'') = Inl ''cannot load''"
    and lc: "LoadHeadOnly env0 (Join env0 (DAGs (Admin ?er)) ''c.yaml'') = Inr dag_c"
    by (simp_all add: env0_def cfg0_def)
  note t = initDags_partial_success [OF h1 h2 h3 h4]
  from t have r1: "fst (initDags env0 ?er) = None" by (rule conjunct1)
  from t have r2: "\<forall>n d. n \<in> set ?fis \<and> LoadHeadOnly env0 (Join env0 (DAGs (Admin ?er)) n) = Inr d \<longrightarrow>
      dags (fst (snd (initDags env0 ?er))) n = Some d" by blast
  from t have r3: "\<forall>n err. n \<in> set ?fis \<and> LoadHeadOnly env0 (Join env0 (DAGs (Admin ?er)) n) = Inl err \<longrightarrow>
      dags (fst (snd (initDags env0 ?er))) n = None" by blast
  from t have r4: "card (dom (dags (fst (snd (initDags env0 ?er))))) =
      length (filter (\<lambda>n. \<exists>d. LoadHeadOnly env0 (Join env0 (DAGs (Admin ?er)) n) = Inr d) ?fis)" by blast
  from t have r5: "length (filter is_load_warning (snd (snd (initDags env0 ?er)))) =
      length (filter (\<lambda>n. \<exists>err. LoadHeadOnly env0 (Join env0 (DAGs (Admin ?er)) n) = Inl err) ?fis)" by blast
  have a: "dags (fst (snd (initDags env0 ?er))) ''a.yaml'' = Some dag_a" using r2 la by simp
  have b: "dags (fst (snd (initDags env0 ?er))) ''b.yaml'' = None" using r3 lb by simp
  have c: "dags (fst (snd (initDags env0 ?er))) ''c.yaml'' = Some dag_c" using r2 lc by simp
  have n: "card (dom (dags (fst (snd (initDags env0 ?er))))) = 2" using r4 la lb lc by simp
  have w: "length (filter is_load_warning (snd (snd (initDags env0 ?er)))) = 1" using r5 la lb lc by simp
  show ?thesis using h1 h2 h3 r1 a b c n w by simp
qed

text \<open>
  C6, as the code has it. When the directory listing cannot be read, \<open>initDags\<close> returns the
  error to \<open>newEntryReader\<close>, which logs it and returns a reader with an empty registry, and
  starts the watching goroutine; \<open>newEntryReader\<close> has no error result, so its caller is not
  told. When the watcher cannot be created, \<open>watchDags\<close> ends the process with \<^verbatim>\<open>log.Fatal\<close>
  before it handles any event.
\<close>

theorem setup_failure_handling:
  "(\<forall>err. ReadDir E (DAGs cfg) = Inl err \<longrightarrow>
      fst (initDags E \<lparr>Admin = cfg, dags = Map.empty\<rparr>) = Some err \<and>
      newEntryReader E cfg =
        (\<lparr>Admin = cfg, dags = Map.empty\<rparr>,
         [Lock, CallReadDir (DAGs cfg), Unlock, Printf (LogFailedInitEntryDags err), GoWatchDags])) \<and>
   (\<forall>err. WatcherNew E = Some err \<longrightarrow>
      watchDags E er rs = (Exited, er, [CallWatcherNew, LogFatal err]))"
  by (simp add: initDags_def newEntryReader_def watchDags_def)

theorem setup_failure_handling_witness:
  "ReadDir env_unreadable (DAGs cfg0) = Inl ''permission denied'' \<and>
   newEntryReader env_unreadable cfg0 =
     (\<lparr>Admin = cfg0, dags = Map.empty\<rparr>,
      [Lock, CallReadDir ''dags'', Unlock, Printf (LogFailedInitEntryDags ''permission denied''),
       GoWatchDags]) \<and>
   WatcherNew env_no_watcher = Some ''too many open files'' \<and>
   watchDags env_no_watcher er0 [RecvEvent \<lparr>Name = ''dags/a.yaml'', Op = Remove\<rparr>] =
     (Exited, er0, [CallWatcherNew, LogFatal ''too many open files''])"
proof -
  have h1: "ReadDir env_unreadable (DAGs cfg0) = Inl ''permission denied''"
    by (simp add: env_unreadable_def)
  have h2: "WatcherNew env_no_watcher = Some ''too many open files''"
    by (simp add: env_no_watcher_def)
  from setup_failure_handling [of env_unreadable cfg0] h1
  have a: "newEntryReader env_unreadable cfg0 =
     (\<lparr>Admin = cfg0, dags = Map.empty\<rparr>,
      [Lock, CallReadDir ''dags'', Unlock, Printf (LogFailedInitEntryDags ''permission denied''),
       GoWatchDags])"
    by (simp add: cfg0_def)
  from setup_failure_handling
    [of env_no_watcher cfg0 er0 "[RecvEvent \<lparr>Name = ''dags/a.yaml'', Op = Remove\<rparr>]"] h2
  have b: "watchDags env_no_watcher er0 [RecvEvent \<lparr>Name = ''dags/a.yaml'', Op = Remove\<rparr>] =
     (Exited, er0, [CallWatcherNew, LogFatal ''too many open files''])"
    by simp
  show ?thesis using h1 h2 a b by simp
qed

text \<open>
  C6, as the claim states it, fails: with a directory whose listing cannot be read,
  \<open>newEntryReader\<close> hands its caller the same reader as for an empty directory, and the
  watching goroutine is started.
\<close>

theorem listing_failure_not_surfaced:
  "fst (newEntryReader env_unreadable cfg0) = fst (newEntryReader env_empty cfg0) \<and>
   GoWatchDags \<in> set (snd (newEntryReader env_unreadable cfg0))"
  by (simp add: newEntryReader_def initDags_def env_unreadable_def env_empty_def)

section \<open>Properties of the event case of watchDags\<close>

lemma Create_Write_not_removal:
  "Create \<noteq> Rename" "Create \<noteq> Remove" "Write \<noteq> Rename" "Write \<noteq> Remove"
  by (simp_all add: Create_def Write_def Rename_def Remove_def)

text \<open>
  C3. For an event whose operation is \<^verbatim>\<open>Create\<close> or \<^verbatim>\<open>Write\<close>, the locked part of the event
  case leaves the reader, and so the registry, exactly as it was when the loader fails for
  the file, and replaces the entry keyed by the base name of the event's file with the
  loaded head when the loader succeeds. Every such event with a recognised extension
  reaches this part.
\<close>

theorem reload_replaces_or_keeps:
  assumes "Op event = Create \<or> Op event = Write"
  shows "(\<forall>err. LoadHeadOnly E (Join E (DAGs (Admin er)) (Base E (Event.Name event))) = Inl err \<longrightarrow>
            fst (watchDags_locked E er event) = er) \<and>
         (\<forall>d. LoadHeadOnly E (Join E (DAGs (Admin er)) (Base E (Event.Name event))) = Inr d \<longrightarrow>
            fst (watchDags_locked E er event) = er\<lparr>dags := (dags er)(Base E (Event.Name event) \<mapsto> d)\<rparr>) \<and>
         (MatchExtension E (Event.Name event) \<longrightarrow>
            watchDags_event E er event = watchDags_locked E er event)"
proof -
  from assms have n: "\<not> (Op event = Rename \<or> Op event = Remove)"
    using Create_Write_not_removal by auto
  show ?thesis
    using assms n
    by (auto simp: watchDags_event_def watchDags_locked_def watchDags_reload_def watchDags_remove_def
             split: prod.splits sum.splits)
qed

theorem reload_replaces_or_keeps_witness:
  "(Op \<lparr>Name = ''dags/b.yaml'', Op = Write\<rparr> = Create \<or> Op \<lparr>Name = ''dags/b.yaml'', Op = Write\<rparr> = Write) \<and>
   fst (watchDags_locked env0 er1 \<lparr>Name = ''dags/b.yaml'', Op = Write\<rparr>) = er1 \<and>
   (Op \<lparr>Name = ''dags/a.yaml'', Op = Create\<rparr> = Create \<or> Op \<lparr>Name = ''dags/a.yaml'', Op = Create\<rparr> = Write) \<and>
   fst (watchDags_locked env0 er1 \<lparr>Name = ''dags/a.yaml'', Op = Create\<rparr>) =
     er1\<lparr>dags := (dags er1)(''a.yaml'' \<mapsto> dag_a)\<rparr>"
proof -
  have h1: "Op \<lparr>Name = ''dags/b.yaml'', Op = Write\<rparr> = Create \<or> Op \<lparr>Name = ''dags/b.yaml'', Op = Write\<rparr> = Write"
    by simp
  have h2: "Op \<lparr>Name = ''dags/a.yaml'', Op = Create\<rparr> = Create \<or> Op \<lparr>Name = ''dags/a.yaml'', Op = Create\<rparr> = Write"
    by simp
  have lb: "LoadHeadOnly env0 (Join env0 (DAGs (Admin er1)) (Base env0 ''dags/b.yaml'')) = Inl ''cannot load''"
    and la: "LoadHeadOnly env0 (Join env0 (DAGs (Admin er1)) (Base env0 ''dags/a.yaml'')) = Inr dag_a"
    and ba: "Base env0 ''dags/a.yaml'' = ''a.yaml''"
    by (simp_all add: env0_def er1_def cfg0_def last_element_def)
  from reload_replaces_or_keeps [OF h1, of env0 er1] lb
  have b: "fst (watchDags_locked env0 er1 \<lparr>Name = ''dags/b.yaml'', Op = Write\<rparr>) = er1" by simp
  from reload_replaces_or_keeps [OF h2, of env0 er1] la ba
  have a: "fst (watchDags_locked env0 er1 \<lparr>Name = ''dags/a.yaml'', Op = Create\<rparr>) =
     er1\<lparr>dags := (dags er1)(''a.yaml'' \<mapsto> dag_a)\<rparr>" by simp
  show ?thesis using h1 h2 a b by blast
qed



section \<open>The scope of the registry lock\<close>

lemma held_by_append:
  "held_by h (xs @ ys) = held_by h xs @ held_by (lock_after h xs) ys"
  by (induction h xs rule: held_by.induct) simp_all

lemma lock_after_append:
  "lock_after h (xs @ ys) = lock_after (lock_after h xs) ys"
  by (induction h xs rule: lock_after.induct) simp_all

lemma lock_free:
  "Lock \<notin> set xs \<Longrightarrow> Unlock \<notin> set xs \<Longrightarrow> held_by h xs = map (Pair h) xs \<and> lock_after h xs = h"
  by (induction h xs rule: held_by.induct) simp_all

lemma bracketed:
  assumes "Lock \<notin> set body" and "Unlock \<notin> set body"
  shows "inside_lock (Lock # body @ [Unlock]) = body"
    and "outside_lock (Lock # body @ [Unlock]) = []"
    and "lock_after False (Lock # body @ [Unlock]) = False"
  using lock_free [OF assms, of True]
  by (simp_all add: inside_lock_def outside_lock_def held_by_append lock_after_append comp_def)

lemma Read_range_effects:
  "snd (Read_range E er now ks (entries, effs)) =
     effs @ map CallIsSuspended (List.map_filter (dags er) ks)"
  by (induction ks arbitrary: entries effs) (simp_all add: List.map_filter_simps split: option.splits)

lemma Read_effects:
  "snd (snd (Read E er order now)) =
     Lock # map CallIsSuspended (List.map_filter (dags er) order) @ [Unlock]"
proof -
  obtain entries effs where r: "Read_range E er now order ([], [Lock]) = (entries, effs)"
    by (cases "Read_range E er now order ([], [Lock])")
  from Read_range_effects [of E er now order "[]" "[Lock]"] r
  have "effs = [Lock] @ map CallIsSuspended (List.map_filter (dags er) order)" by simp
  then show ?thesis using r by (simp add: Read_def)
qed

lemma watchDags_locked_effects:
  "\<exists>body. snd (watchDags_locked E er event) = Lock # body @ [Unlock] \<and>
          Lock \<notin> set body \<and> Unlock \<notin> set body \<and>
          (Op event = Create \<or> Op event = Write \<longrightarrow>
             CallLoadHeadOnly (Join E (DAGs (Admin er)) (Base E (Event.Name event))) \<in> set body)"
  by (auto simp: watchDags_locked_def watchDags_reload_def watchDags_remove_def
           split: prod.splits sum.splits)

lemma watchDags_event_effects:
  "snd (watchDags_event E er event) = [] \<or>
   (\<exists>body. snd (watchDags_event E er event) = Lock # body @ [Unlock] \<and>
          Lock \<notin> set body \<and> Unlock \<notin> set body)"
  using watchDags_locked_effects [of E er event] by (auto simp: watchDags_event_def)

lemma initDags_step_lock_free:
  "Lock \<notin> set (concat (map (initDags_step E dir) fis)) \<and>
   Unlock \<notin> set (concat (map (initDags_step E dir) fis))"
  by (induction fis) (auto simp: initDags_step_def split: sum.splits)

lemma initDags_lock_scope:
  "outside_lock (snd (snd (initDags E er))) = [] \<and>
   lock_after False (snd (snd (initDags E er))) = False"
proof (cases "ReadDir E (DAGs (Admin er))")
  case (Inl err)
  then show ?thesis by (simp add: initDags_def outside_lock_def)
next
  case (Inr fis)
  let ?body = "CallReadDir (DAGs (Admin er)) # concat (map (initDags_step E (DAGs (Admin er))) fis) @
       [Printf (LogInitSchedulerDags
          (filter (\<lambda>n. MatchExtension E n \<and> isl (LoadHeadOnly E (Join E (DAGs (Admin er)) n)) = False) fis))]"
  have free: "Lock \<notin> set ?body" "Unlock \<notin> set ?body"
    using initDags_step_lock_free [of E "DAGs (Admin er)" fis] by simp_all
  have "snd (snd (initDags E er)) = Lock # ?body @ [Unlock]"
    by (simp add: initDags_ok(3) [OF Inr])
  then show ?thesis
    using bracketed(2,3) [OF free] by simp
qed

text \<open>
  C5, as the code has it. The lock is held for the whole of the locked part of the event
  case and for the whole of \<open>Read\<close>: nothing that these calls do happens with the lock free,
  and the lock is free again when they return. For a \<^verbatim>\<open>Create\<close> or \<^verbatim>\<open>Write\<close> event with a
  recognised extension the loader is called while the lock is held, and \<open>Read\<close> consults the
  suspension predicate for every workflow of the registry while the lock is held.
\<close>

theorem lock_held_throughout:
  "outside_lock (snd (watchDags_event E er event)) = [] \<and>
   lock_after False (snd (watchDags_event E er event)) = False \<and>
   (MatchExtension E (Event.Name event) \<and> (Op event = Create \<or> Op event = Write) \<longrightarrow>
      CallLoadHeadOnly (Join E (DAGs (Admin er)) (Base E (Event.Name event)))
        \<in> set (inside_lock (snd (watchDags_event E er event)))) \<and>
   outside_lock (snd (snd (Read E er order now))) = [] \<and>
   lock_after False (snd (snd (Read E er order now))) = False \<and>
   (\<forall>k d. k \<in> set order \<and> dags er k = Some d \<longrightarrow>
      CallIsSuspended d \<in> set (inside_lock (snd (snd (Read E er order now)))))"
proof (intro conjI allI impI)
  from watchDags_event_effects [of E er event]
  show "outside_lock (snd (watchDags_event E er event)) = []"
  proof
    assume "snd (watchDags_event E er event) = []"
    then show ?thesis by (simp add: outside_lock_def)
  next
    assume "\<exists>body. snd (watchDags_event E er event) = Lock # body @ [Unlock] \<and>
          Lock \<notin> set body \<and> Unlock \<notin> set body"
    then obtain body where "snd (watchDags_event E er event) = Lock # body @ [Unlock]"
      and "Lock \<notin> set body" and "Unlock \<notin> set body" by blast
    then show ?thesis using bracketed(2) [of body] by simp
  qed
next
  from watchDags_event_effects [of E er event]
  show "lock_after False (snd (watchDags_event E er event)) = False"
  proof
    assume "snd (watchDags_event E er event) = []"
    then show ?thesis by simp
  next
    assume "\<exists>body. snd (watchDags_event E er event) = Lock # body @ [Unlock] \<and>
          Lock \<notin> set body \<and> Unlock \<notin> set body"
    then obtain body where "snd (watchDags_event E er event) = Lock # body @ [Unlock]"
      and "Lock \<notin> set body" and "Unlock \<notin> set body" by blast
    then show ?thesis using bracketed(3) [of body] by simp
  qed
next
  assume a: "MatchExtension E (Event.Name event) \<and> (Op event = Create \<or> Op event = Write)"
  from watchDags_locked_effects [of E er event] a obtain body where
    b: "snd (watchDags_locked E er event) = Lock # body @ [Unlock]" "Lock \<notin> set body" "Unlock \<notin> set body"
      "CallLoadHeadOnly (Join E (DAGs (Admin er)) (Base E (Event.Name event))) \<in> set body"
    by blast
  from a have "watchDags_event E er event = watchDags_locked E er event"
    by (simp add: watchDags_event_def)
  with b show "CallLoadHeadOnly (Join E (DAGs (Admin er)) (Base E (Event.Name event)))
        \<in> set (inside_lock (snd (watchDags_event E er event)))"
    using bracketed(1) [of body] by simp
next
  have free: "Lock \<notin> set (map CallIsSuspended xs)" "Unlock \<notin> set (map CallIsSuspended xs)" for xs
    by auto
  show "outside_lock (snd (snd (Read E er order now))) = []"
    unfolding Read_effects by (rule bracketed(2) [OF free])
  show "lock_after False (snd (snd (Read E er order now))) = False"
    unfolding Read_effects by (rule bracketed(3) [OF free])
  fix k d assume "k \<in> set order \<and> dags er k = Some d"
  then have "d \<in> set (List.map_filter (dags er) order)"
    by (force simp: List.map_filter_def)
  then show "CallIsSuspended d \<in> set (inside_lock (snd (snd (Read E er order now))))"
    unfolding Read_effects by (simp add: bracketed(1) [OF free])
qed

theorem lock_held_throughout_witness:
  "MatchExtension env0 (Event.Name \<lparr>Name = ''dags/c.yaml'', Op = Create\<rparr>) \<and>
   (Op \<lparr>Name = ''dags/c.yaml'', Op = Create\<rparr> = Create \<or> Op \<lparr>Name = ''dags/c.yaml'', Op = Create\<rparr> = Write) \<and>
   CallLoadHeadOnly ''dags/c.yaml''
     \<in> set (inside_lock (snd (watchDags_event env0 er1 \<lparr>Name = ''dags/c.yaml'', Op = Create\<rparr>))) \<and>
   outside_lock (snd (watchDags_event env0 er1 \<lparr>Name = ''dags/c.yaml'', Op = Create\<rparr>)) = [] \<and>
   ''c.yaml'' \<in> set [''a.yaml'', ''c.yaml''] \<and> dags er0 ''c.yaml'' = Some dag_c \<and>
   CallIsSuspended dag_c \<in> set (inside_lock (snd (snd (Read env0 er0 [''a.yaml'', ''c.yaml''] 0))))"
proof -
  let ?ev = "\<lparr>Name = ''dags/c.yaml'', Op = Create\<rparr>"
  have h1: "MatchExtension env0 (Event.Name ?ev) \<and> (Op ?ev = Create \<or> Op ?ev = Write)"
    by (simp add: env0_def has_suffix_def)
  have h2: "''c.yaml'' \<in> set [''a.yaml'', ''c.yaml''] \<and> dags er0 ''c.yaml'' = Some dag_c"
    by (simp add: er0_def)
  have p: "Join env0 (DAGs (Admin er1)) (Base env0 (Event.Name ?ev)) = ''dags/c.yaml''"
    by (simp add: env0_def er1_def cfg0_def last_element_def)
  note t = lock_held_throughout [of env0 er1 ?ev "[''a.yaml'', ''c.yaml'']" 0]
  from t h1 p have a: "CallLoadHeadOnly ''dags/c.yaml'' \<in> set (inside_lock (snd (watchDags_event env0 er1 ?ev)))"
    by simp
  from t have b: "outside_lock (snd (watchDags_event env0 er1 ?ev)) = []" by (rule conjunct1)
  from lock_held_throughout [of env0 er0 ?ev "[''a.yaml'', ''c.yaml'']" 0] h2
  have c: "CallIsSuspended dag_c \<in> set (inside_lock (snd (snd (Read env0 er0 [''a.yaml'', ''c.yaml''] 0))))"
    by blast
  show ?thesis using h1 h2 a b c by blast
qed

text \<open>
  C5, as the claim states it, fails: on a \<^verbatim>\<open>Write\<close> event the loader is called after the lock
  is taken and before it is released, not before the lock is taken, and \<open>Read\<close> consults the
  suspension predicate with the lock held.
\<close>

theorem loader_called_under_lock:
  "CallLoadHeadOnly ''dags/a.yaml''
     \<in> set (inside_lock (snd (watchDags_event env0 er1 \<lparr>Name = ''dags/a.yaml'', Op = Write\<rparr>))) \<and>
   CallLoadHeadOnly ''dags/a.yaml''
     \<notin> set (outside_lock (snd (watchDags_event env0 er1 \<lparr>Name = ''dags/a.yaml'', Op = Write\<rparr>))) \<and>
   CallIsSuspended dag_a \<in> set (inside_lock (snd (snd (Read env0 er0 [''c.yaml'', ''a.yaml''] 90)))) \<and>
   CallIsSuspended dag_a \<notin> set (outside_lock (snd (snd (Read env0 er0 [''c.yaml'', ''a.yaml''] 90))))"
  by (simp add: watchDags_event_def watchDags_locked_def watchDags_reload_def watchDags_remove_def
        Read_def env0_def er0_def er1_def cfg0_def has_suffix_def last_element_def
        Write_def Create_def Rename_def Remove_def inside_lock_def outside_lock_def)

section \<open>Schedule expressions as the specification describes them\<close>


lemma first_from_sound:
  assumes "first_from sat t = Some r"
  shows "t \<le> r \<and> sat r"
proof (rule first_from.raw_induct [where P = "\<lambda>sat t r. t \<le> r \<and> sat r", OF _ assms])
  fix g :: "(time \<Rightarrow> bool) \<Rightarrow> time \<Rightarrow> time option" and sat t r
  assume ih: "\<And>sat t r. g sat t = Some r \<Longrightarrow> t \<le> r \<and> sat r"
    and body: "(if sat t then Some t else g sat (t + 1)) = Some r"
  show "t \<le> r \<and> sat r"
  proof (cases "sat t")
    case True
    with body show ?thesis by simp
  next
    case False
    with body have "g sat (t + 1) = Some r" by simp
    from ih [OF this] show ?thesis by simp
  qed
qed


lemma nextAfter_sound: "nextAfter sat now = Some t \<Longrightarrow> now < t \<and> sat t"
  using first_from_sound [of sat "now + 1" t] by (simp add: nextAfter_def)

lemma nextAfter_no_occurrence:
  assumes "\<forall>u. now < u \<longrightarrow> \<not> sat u"
  shows "nextAfter sat now = None"
proof (cases "nextAfter sat now")
  case None
  then show ?thesis .
next
  case (Some t)
  from nextAfter_sound [OF this] assms show ?thesis by blast
qed








section \<open>Debounced events and the registry\<close>

lemma debounce_run_same_path:
  assumes "\<forall>r\<in>set raws. Event.Name (snd r) = p"
    and "within_window w raws"
    and "raws \<noteq> [] \<longrightarrow> fst (hd raws) < deadline"
  shows "debounce_run w raws ([(p, k, deadline)], []) =
     ([(p, if raws = [] then k else Op (snd (last raws)),
           if raws = [] then deadline else fst (last raws) + w)], [])"
  using assms
proof (induction raws arbitrary: k deadline)
  case Nil
  then show ?case by simp
next
  case (Cons r raws)
  obtain t ev where r: "r = (t, ev)" by (cases r)
  from Cons.prems r have n: "Event.Name ev = p" and lt: "t < deadline" by simp_all
  have fire: "fire t ([(p, k, deadline)], []) = ([(p, k, deadline)], [])"
    using lt by (simp add: fire_def)
  have arm: "arm w t ev [(p, k, deadline)] = [(p, Op ev, t + w)]"
    using n by (simp add: arm_def)
  have step: "debounce_run w (r # raws) ([(p, k, deadline)], []) =
      debounce_run w raws ([(p, Op ev, t + w)], [])"
    by (simp add: r fire arm)
  have a1: "\<forall>r\<in>set raws. Event.Name (snd r) = p" using Cons.prems(1) by simp
  have a2: "within_window w raws" using Cons.prems(2) by (cases raws) simp_all
  have a3: "raws \<noteq> [] \<longrightarrow> fst (hd raws) < t + w"
    using Cons.prems(2) r by (cases raws) simp_all
  from Cons.IH [OF a1 a2 a3, of "Op ev"] step r show ?case by simp
qed

lemma debounce_same_path:
  assumes "raws \<noteq> []" and "\<forall>r\<in>set raws. Event.Name (snd r) = p" and "within_window w raws"
  shows "debounce w raws = [\<lparr>Name = p, Op = Op (snd (last raws))\<rparr>]"
proof -
  from assms(1) obtain t ev rest where raws: "raws = (t, ev) # rest"
    by (cases raws) auto
  from assms(2) raws have n: "Event.Name ev = p" by simp
  have step: "debounce_run w raws ([], []) = debounce_run w rest ([(p, Op ev, t + w)], [])"
    using n by (simp add: raws fire_def arm_def)
  have a1: "\<forall>r\<in>set rest. Event.Name (snd r) = p" using assms(2) raws by simp
  have a2: "within_window w rest" using assms(3) raws by (cases rest) simp_all
  have a3: "rest \<noteq> [] \<longrightarrow> fst (hd rest) < t + w"
    using assms(3) raws by (cases rest) simp_all
  from debounce_run_same_path [OF a1 a2 a3, of "Op ev"] step raws
  show ?thesis by (simp add: debounce_def)
qed

lemma watchDags_loop_single:
  "watchDags_loop E [RecvEvent event] (er, []) =
     (Waiting, fst (watchDags_event E er event), snd (watchDags_event E er event))"
  by (simp split: prod.splits)

lemma watchDags_event_removal:
  assumes "MatchExtension E (Event.Name event)" and "Op event = Remove \<or> Op event = Rename"
  shows "dags (fst (watchDags_event E er event)) (Base E (Event.Name event)) = None"
proof -
  from assms(2) have "\<not> (Op event = Create \<or> Op event = Write)"
    using Create_Write_not_removal by auto
  with assms show ?thesis
    by (auto simp: watchDags_event_def watchDags_locked_def watchDags_reload_def watchDags_remove_def)
qed

lemma watchDags_event_reload:
  assumes "MatchExtension E (Event.Name event)" and "Op event = Create \<or> Op event = Write"
  shows "dags (fst (watchDags_event E er event)) =
     (case LoadHeadOnly E (Join E (DAGs (Admin er)) (Base E (Event.Name event))) of
        Inl err \<Rightarrow> dags er
      | Inr d \<Rightarrow> (dags er)(Base E (Event.Name event) \<mapsto> d))"
proof -
  from assms(2) have "\<not> (Op event = Rename \<or> Op event = Remove)"
    using Create_Write_not_removal by auto
  with assms show ?thesis
    by (auto simp: watchDags_event_def watchDags_locked_def watchDags_reload_def watchDags_remove_def
             split: sum.splits)
qed

lemma create_then_remove_in_sequence:
  assumes "MatchExtension E n"
  shows "dags (fst (snd (watchDags_loop E
            [RecvEvent \<lparr>Name = n, Op = Create\<rparr>, RecvEvent \<lparr>Name = n, Op = Remove\<rparr>] (er, []))))
          (Base E n) = None"
proof -
  obtain er1 effs1 where s1: "watchDags_event E er \<lparr>Name = n, Op = Create\<rparr> = (er1, effs1)"
    by (cases "watchDags_event E er \<lparr>Name = n, Op = Create\<rparr>")
  obtain er2 effs2 where s2: "watchDags_event E er1 \<lparr>Name = n, Op = Remove\<rparr> = (er2, effs2)"
    by (cases "watchDags_event E er1 \<lparr>Name = n, Op = Remove\<rparr>")
  from watchDags_event_removal [of E "\<lparr>Name = n, Op = Remove\<rparr>" er1] assms s2
  have "dags er2 (Base E n) = None" by simp
  then show ?thesis by (simp add: s1 s2)
qed

text \<open>
  C9. With the debounced watcher as the specification describes it: when the raw events
  of a non-empty sequence are all for the path \<open>p\<close> and each arrives within the coalescing
  window opened by the one before it, the watcher delivers exactly one event, for \<open>p\<close> and
  of the kind of the last raw event. The loop of \<open>watchDags\<close> then handles exactly that
  event: for a path of recognised extension, a last kind \<^verbatim>\<open>Remove\<close> or \<^verbatim>\<open>Rename\<close> leaves no
  registry entry for the path, whatever came before it in the window, and a last kind
  \<^verbatim>\<open>Create\<close> or \<^verbatim>\<open>Write\<close> stores the loaded head, or leaves the registry as it was when the
  file does not load.
\<close>

theorem debounced_net_effect:
  assumes "raws \<noteq> []" and "\<forall>r\<in>set raws. Event.Name (snd r) = p" and "within_window w raws"
  shows "debounce w raws = [\<lparr>Name = p, Op = Op (snd (last raws))\<rparr>] \<and>
         watchDags_loop E (map RecvEvent (debounce w raws)) (er, []) =
           (Waiting,
            fst (watchDags_event E er \<lparr>Name = p, Op = Op (snd (last raws))\<rparr>),
            snd (watchDags_event E er \<lparr>Name = p, Op = Op (snd (last raws))\<rparr>)) \<and>
         (MatchExtension E p \<and> (Op (snd (last raws)) = Remove \<or> Op (snd (last raws)) = Rename) \<longrightarrow>
            dags (fst (snd (watchDags_loop E (map RecvEvent (debounce w raws)) (er, []))))
              (Base E p) = None) \<and>
         (MatchExtension E p \<and> (Op (snd (last raws)) = Create \<or> Op (snd (last raws)) = Write) \<longrightarrow>
            dags (fst (snd (watchDags_loop E (map RecvEvent (debounce w raws)) (er, [])))) =
              (case LoadHeadOnly E (Join E (DAGs (Admin er)) (Base E p)) of
                 Inl err \<Rightarrow> dags er
               | Inr d \<Rightarrow> (dags er)(Base E p \<mapsto> d)))"
proof -
  let ?ev = "\<lparr>Name = p, Op = Op (snd (last raws))\<rparr>"
  have d: "debounce w raws = [?ev]" using assms by (rule debounce_same_path)
  have l: "watchDags_loop E (map RecvEvent (debounce w raws)) (er, []) =
      (Waiting, fst (watchDags_event E er ?ev), snd (watchDags_event E er ?ev))"
    unfolding d using watchDags_loop_single [of E ?ev er] by simp
  have r: "dags (fst (watchDags_event E er ?ev)) (Base E p) = None"
    if "MatchExtension E p \<and> (Op (snd (last raws)) = Remove \<or> Op (snd (last raws)) = Rename)"
    using watchDags_event_removal [of E ?ev er] that by simp
  have c: "dags (fst (watchDags_event E er ?ev)) =
      (case LoadHeadOnly E (Join E (DAGs (Admin er)) (Base E p)) of
         Inl err \<Rightarrow> dags er | Inr d \<Rightarrow> (dags er)(Base E p \<mapsto> d))"
    if "MatchExtension E p \<and> (Op (snd (last raws)) = Create \<or> Op (snd (last raws)) = Write)"
    using watchDags_event_reload [of E ?ev er] that by (simp split: sum.splits)
  show ?thesis
    using d r c by (simp add: l)
qed

theorem debounced_net_effect_witness:
  "[(100::time, \<lparr>Name = ''dags/a.yaml'', Op = Create\<rparr>), (101, \<lparr>Name = ''dags/a.yaml'', Op = Write\<rparr>),
    (103, \<lparr>Name = ''dags/a.yaml'', Op = Remove\<rparr>)] \<noteq> [] \<and>
   within_window 5
     [(100::time, \<lparr>Name = ''dags/a.yaml'', Op = Create\<rparr>), (101, \<lparr>Name = ''dags/a.yaml'', Op = Write\<rparr>),
      (103, \<lparr>Name = ''dags/a.yaml'', Op = Remove\<rparr>)] \<and>
   debounce 5
     [(100::time, \<lparr>Name = ''dags/a.yaml'', Op = Create\<rparr>), (101, \<lparr>Name = ''dags/a.yaml'', Op = Write\<rparr>),
      (103, \<lparr>Name = ''dags/a.yaml'', Op = Remove\<rparr>)] = [\<lparr>Name = ''dags/a.yaml'', Op = Remove\<rparr>] \<and>
   MatchExtension env0 ''dags/a.yaml'' \<and>
   dags (fst (snd (watchDags_loop env0 (map RecvEvent (debounce 5
     [(100::time, \<lparr>Name = ''dags/a.yaml'', Op = Create\<rparr>), (101, \<lparr>Name = ''dags/a.yaml'', Op = Write\<rparr>),
      (103, \<lparr>Name = ''dags/a.yaml'', Op = Remove\<rparr>)])) (er1, [])))) ''a.yaml'' = None"
proof -
  let ?raws = "[(100::time, \<lparr>Name = ''dags/a.yaml'', Op = Create\<rparr>), (101, \<lparr>Name = ''dags/a.yaml'', Op = Write\<rparr>),
      (103, \<lparr>Name = ''dags/a.yaml'', Op = Remove\<rparr>)]"
  have h1: "?raws \<noteq> []" by simp
  have h2: "\<forall>r\<in>set ?raws. Event.Name (snd r) = ''dags/a.yaml''" by simp
  have h3: "within_window 5 ?raws" by simp
  have m: "MatchExtension env0 ''dags/a.yaml''" by (simp add: env0_def has_suffix_def)
  have b: "Base env0 ''dags/a.yaml'' = ''a.yaml''" by (simp add: env0_def last_element_def)
  note t = debounced_net_effect [OF h1 h2 h3, of env0 er1]
  from t have a: "debounce 5 ?raws = [\<lparr>Name = ''dags/a.yaml'', Op = Remove\<rparr>]" by simp
  from t [THEN conjunct2, THEN conjunct2, THEN conjunct1] m b
  have c: "dags (fst (snd (watchDags_loop env0 (map RecvEvent (debounce 5 ?raws)) (er1, []))))
      ''a.yaml'' = None" by simp
  show ?thesis using h1 h3 m a c by blast
qed

end
